theory Spec2Isabelle
  imports Main
begin

section \<open>Strings\<close>

text \<open>
  A JavaScript string is a sequence of 16-bit code units. The development works with the
  strings whose code units are all below 256 and writes such a string as the
  \<^typ>\<open>string\<close> of those code units: \<^term>\<open>CHR 0xA0\<close> is the code unit U+00A0, not a byte of
  an encoding. On these strings the three library operations the sources use are:

  \<^item> the class \<^verbatim>\<open>\s\<close> and the characters \<^verbatim>\<open>trim()\<close> strips: TAB, LF, VT, FF, CR, SPACE and
    NO-BREAK SPACE (the other members of both sets lie above U+00FF);
  \<^item> \<^verbatim>\<open>toLowerCase()\<close>: \<^verbatim>\<open>A\<close>..\<^verbatim>\<open>Z\<close> and U+00C0..U+00DE (without U+00D7) move up by 32,
    every other code unit below 256 stays;
  \<^item> the class \<^verbatim>\<open>\w\<close> (no \<^verbatim>\<open>u\<close> or \<^verbatim>\<open>i\<close> flag): \<^verbatim>\<open>[A-Za-z0-9_]\<close>.
\<close>

definition is_space :: "char \<Rightarrow> bool" where
  "is_space c =
     (c \<in> {CHR 0x09, CHR 0x0A, CHR 0x0B, CHR 0x0C, CHR 0x0D, CHR 0x20, CHR 0xA0})"

definition lower_char :: "char \<Rightarrow> char" where
  "lower_char c =
     (let n = (of_char c :: nat)
      in if (65 \<le> n \<and> n \<le> 90) \<or> (192 \<le> n \<and> n \<le> 222 \<and> n \<noteq> 215)
         then char_of (n + 32) else c)"

definition toLowerCase :: "string \<Rightarrow> string" where
  "toLowerCase s = map lower_char s"

text \<open>\<^verbatim>\<open>s.trim()\<close>: the whitespace at both ends goes.\<close>

definition trimStart :: "string \<Rightarrow> string" where
  "trimStart s = dropWhile is_space s"

definition trimEnd :: "string \<Rightarrow> string" where
  "trimEnd s = rev (dropWhile is_space (rev s))"

definition trim :: "string \<Rightarrow> string" where
  "trim s = trimStart (trimEnd s)"

text \<open>
  \<^verbatim>\<open>s.replace(/\s+/g, " ")\<close>: scanning from the left, each maximal run of whitespace is
  replaced by one space.
\<close>

function collapse_ws :: "string \<Rightarrow> string" where
  "collapse_ws [] = []"
| "collapse_ws (c # cs) =
     (if is_space c then CHR '' '' # collapse_ws (dropWhile is_space cs)
      else c # collapse_ws cs)"
  by pat_completeness auto
termination
  by (relation "measure length") (auto simp: length_dropWhile_le less_Suc_eq_le)

section \<open>src/utils/normalizeTeam.ts\<close>

definition normalizeTeamName :: "string \<Rightarrow> string" where
  "normalizeTeamName nm = trim (collapse_ws nm)"

definition sameTeamName :: "string \<Rightarrow> string \<Rightarrow> bool" where
  "sameTeamName a b =
     (toLowerCase (normalizeTeamName a) = toLowerCase (normalizeTeamName b))"

text \<open>
  What "collapse every run of whitespace to a single space and trim" means, said without
  the two library calls: the words of a string are its maximal runs of non-whitespace,
  and the normal form is these words with one space between neighbours.
\<close>

function ws_words :: "string \<Rightarrow> string list" where
  "ws_words s =
     (let r = dropWhile is_space s
      in if r = [] then []
         else takeWhile (\<lambda>c. \<not> is_space c) r # ws_words (dropWhile (\<lambda>c. \<not> is_space c) r))"
  by pat_completeness auto
termination
proof (relation "measure length")
  fix s r :: string
  assume r: "r = dropWhile is_space s" and ne: "r \<noteq> []"
  from ne have "\<not> is_space (hd r)"
    unfolding r by (rule hd_dropWhile)
  with ne have "length (dropWhile (\<lambda>c. \<not> is_space c) r) < length r"
    by (cases r) (auto simp: less_Suc_eq_le length_dropWhile_le)
  also have "length r \<le> length s"
    unfolding r by (rule length_dropWhile_le)
  finally show "(dropWhile (\<lambda>c. \<not> is_space c) r, s) \<in> measure length"
    by simp
qed simp

fun unwords :: "string list \<Rightarrow> string" where
  "unwords [] = []"
| "unwords [w] = w"
| "unwords (w # ws) = w @ CHR '' '' # unwords ws"

section \<open>src/config/superbowl.ts\<close>

datatype conference = AFC | NFC

record Team =
  name :: string
  city :: string
  team_abbreviation :: string
  conference :: "conference option"

record Teams =
  home :: Team
  away :: Team

record Superbowl =
  label :: string
  roman :: string
  teams :: Teams

definition SUPERBOWL :: Superbowl where
  "SUPERBOWL =
     \<lparr>label = ''Super Bowl'',
      roman = ''XLIX'',
      teams =
        \<lparr>home = \<lparr>name = ''New England Patriots'', city = ''New England'',
                  team_abbreviation = ''NE'', conference = Some AFC\<rparr>,
         away = \<lparr>name = ''Seattle Seahawks'', city = ''Seattle'',
                  team_abbreviation = ''SEA'', conference = Some NFC\<rparr>\<rparr>\<rparr>"

definition SUPERBOWL_TEAM_NAMES :: "string list" where
  "SUPERBOWL_TEAM_NAMES = [name (home (teams SUPERBOWL)), name (away (teams SUPERBOWL))]"

definition isSuperbowlTeamName :: "string \<Rightarrow> bool" where
  "isSuperbowlTeamName teamName =
     (let t = toLowerCase (trim teamName)
      in list_ex (\<lambda>n. toLowerCase n = t) SUPERBOWL_TEAM_NAMES)"

text \<open>
  The specification's \<^verbatim>\<open>isKnownParticipant\<close>, following its words: the candidate is
  normalised (whitespace collapsed, trimmed, case-folded) and compared with each team's
  full name under the same normalisation.
\<close>

definition isKnownParticipant_spec :: "string \<Rightarrow> bool" where
  "isKnownParticipant_spec candidateName =
     list_ex (\<lambda>n. toLowerCase (normalizeTeamName n) =
                   toLowerCase (normalizeTeamName candidateName))
       SUPERBOWL_TEAM_NAMES"

section \<open>src/utils/formatMatchup.ts and src/utils/formatSuperbowl.ts\<close>

text \<open>
  Both properties of \<^verbatim>\<open>Options\<close> are optional; \<^const>\<open>None\<close> is \<^verbatim>\<open>undefined\<close>. The argument
  itself may be left out, and then \<^verbatim>\<open>{}\<close> takes its place.
\<close>

record Options =
  useAbbreviations :: "bool option"
  separator :: "string option"

definition formatSuperbowlMatchup :: "Options option \<Rightarrow> string" where
  "formatSuperbowlMatchup arg =
     (let opts = (case arg of
                    None \<Rightarrow> \<lparr>useAbbreviations = None, separator = None\<rparr>
                  | Some q \<Rightarrow> q);
          useAbbr = (case useAbbreviations opts of None \<Rightarrow> False | Some b \<Rightarrow> b);
          sep = (case separator opts of None \<Rightarrow> '' vs '' | Some s \<Rightarrow> s);
          left = (if useAbbr then team_abbreviation (home (teams SUPERBOWL))
                  else name (home (teams SUPERBOWL)));
          right = (if useAbbr then team_abbreviation (away (teams SUPERBOWL))
                   else name (away (teams SUPERBOWL)))
      in left @ sep @ right)"

definition formatSuperbowlEventLabel :: string where
  "formatSuperbowlEventLabel = label SUPERBOWL @ '' '' @ roman SUPERBOWL"

definition formatSuperbowlTeamsLine :: string where
  "formatSuperbowlTeamsLine =
     name (away (teams SUPERBOWL)) @ '' vs '' @ name (home (teams SUPERBOWL))"

section \<open>scripts/guard-superbowl-strings.js\<close>

subsection \<open>The pattern\<close>

text \<open>
  \<^verbatim>\<open>BAD_PATTERN\<close> is an alternation of five sequences, each made of literal characters and
  the assertion \<^verbatim>\<open>\b\<close>. \<^verbatim>\<open>\b\<close> holds at index \<open>i\<close> when exactly one of the characters before and
  at \<open>i\<close> is a word character; beyond either end of the string there is none.
  \<^verbatim>\<open>BAD_PATTERN.test(line)\<close> (no \<^verbatim>\<open>g\<close> or \<^verbatim>\<open>y\<close> flag, so no state between calls) is true when
  some alternative matches at some index.
\<close>

datatype atom = Lit char | WordB

definition is_word_char :: "char \<Rightarrow> bool" where
  "is_word_char c =
     (let n = (of_char c :: nat)
      in (48 \<le> n \<and> n \<le> 57) \<or> (65 \<le> n \<and> n \<le> 90) \<or> n = 95 \<or> (97 \<le> n \<and> n \<le> 122))"

definition word_at :: "string \<Rightarrow> nat \<Rightarrow> bool" where
  "word_at s i = (i < length s \<and> is_word_char (s ! i))"

definition word_boundary :: "string \<Rightarrow> nat \<Rightarrow> bool" where
  "word_boundary s i = ((0 < i \<and> word_at s (i - 1)) \<noteq> word_at s i)"

fun match_here :: "atom list \<Rightarrow> string \<Rightarrow> nat \<Rightarrow> bool" where
  "match_here [] s i = True"
| "match_here (Lit c # as) s i = (i < length s \<and> s ! i = c \<and> match_here as s (Suc i))"
| "match_here (WordB # as) s i = (word_boundary s i \<and> match_here as s i)"

definition regex_test :: "atom list list \<Rightarrow> string \<Rightarrow> bool" where
  "regex_test alts s =
     list_ex (\<lambda>i. list_ex (\<lambda>a. match_here a s i) alts) [0 ..< Suc (length s)]"

definition BAD_PATTERN :: "atom list list" where
  "BAD_PATTERN =
     [map Lit ''Kansas City Chiefs'',
      map Lit ''San Francisco 49ers'',
      WordB # map Lit ''Chiefs'' @ [WordB],
      WordB # map Lit ''49ers'' @ [WordB],
      map Lit ''superbowlTeams'']"

subsection \<open>The file tree\<close>

text \<open>
  What the guard can observe of the tree under \<^verbatim>\<open>ROOT\<close>. A directory carries the entries
  \<^verbatim>\<open>readdirSync\<close> returns, in that order, or \<^const>\<open>None\<close> when the call throws; a regular file
  carries the text \<^verbatim>\<open>readFileSync(file, "utf8")\<close> returns, or \<^const>\<open>None\<close> when it throws;
  \<open>Other\<close> is an entry for which both \<^verbatim>\<open>isDirectory()\<close> and \<^verbatim>\<open>isFile()\<close> are false (a
  symbolic link, a socket); \<open>Vanished\<close> is an entry that \<^verbatim>\<open>readdirSync\<close> reports as a directory
  and for which \<^verbatim>\<open>existsSync\<close> is false when the walk gets to it (removed in between, or
  listed in a directory that cannot be searched). The root is a \<open>node option\<close>: \<^const>\<open>None\<close>
  when \<^verbatim>\<open>existsSync(ROOT)\<close> is false.

  A path is the list of entry names from \<^verbatim>\<open>ROOT\<close> downwards, so \<^verbatim>\<open>path.join(dir, e.name)\<close>
  appends a name and \<^verbatim>\<open>path.relative(ROOT, file)\<close> joins the names with the separator of
  the platform, taken to be \<^verbatim>\<open>/\<close>.
\<close>

datatype node =
    File "string option"
  | Dir "(string \<times> node) list option"
  | Other
  | Vanished

datatype fs_error = ReaddirFailed "string list" | ReadFileFailed "string list"

definition IGNORE :: "string set" where
  "IGNORE =
     {''node_modules'', ''.git'', ''__pycache__'', ''kalshi_signals.db'',
      ''watchlist.json'', ''package-lock.json''}"

fun path_relative :: "string list \<Rightarrow> string" where
  "path_relative [] = []"
| "path_relative [x] = x"
| "path_relative (x # xs) = x @ CHR ''/'' # path_relative xs"

text \<open>
  \<^verbatim>\<open>path.extname\<close> looks at the last component: the extension runs from its last dot to
  the end, and is empty when there is no dot, when the last dot is the first character,
  and for the component \<^verbatim>\<open>..\<close>.
\<close>

definition extname_base :: "string \<Rightarrow> string" where
  "extname_base b =
     (let after = takeWhile (\<lambda>c. c \<noteq> CHR ''.'') (rev b)
      in if length after = length b then []
         else let startDot = length b - length after - 1
              in if startDot = 0 \<or> b = ''..'' then [] else drop startDot b)"

definition extname :: "string list \<Rightarrow> string" where
  "extname file = (if file = [] then [] else extname_base (last file))"

subsection \<open>walk\<close>

text \<open>
  The callback mutates the array \<^verbatim>\<open>hits\<close>; here it takes the state and returns the new
  one, or the exception it throws, which ends the walk. Every call of \<^verbatim>\<open>walk\<close>, the first
  and the recursive ones, returns at once when \<^verbatim>\<open>existsSync(dir)\<close> is false.
\<close>

function walk ::
    "(string list \<Rightarrow> string option \<Rightarrow> 'st \<Rightarrow> fs_error + 'st) \<Rightarrow>
     string list \<Rightarrow> node option \<Rightarrow> 'st \<Rightarrow> fs_error + 'st"
  and walk_entries ::
    "(string list \<Rightarrow> string option \<Rightarrow> 'st \<Rightarrow> fs_error + 'st) \<Rightarrow>
     string list \<Rightarrow> (string \<times> node) list \<Rightarrow> 'st \<Rightarrow> fs_error + 'st"
where
  "walk cb dir None st = Inr st"
| "walk cb dir (Some (Dir None)) st = Inl (ReaddirFailed dir)"
| "walk cb dir (Some (Dir (Some entries))) st = walk_entries cb dir entries st"
| "walk cb dir (Some (File c)) st = Inl (ReaddirFailed dir)"
| "walk cb dir (Some Other) st = Inl (ReaddirFailed dir)"
| "walk cb dir (Some Vanished) st = Inr st"
| "walk_entries cb dir [] st = Inr st"
| "walk_entries cb dir ((e_name, e) # rest) st =
     (let full = dir @ [e_name]
      in if e_name \<in> IGNORE then walk_entries cb dir rest st
         else case e of
                Dir l \<Rightarrow>
                  (case walk cb full (Some (Dir l)) st of
                     Inl err \<Rightarrow> Inl err
                   | Inr st' \<Rightarrow> walk_entries cb dir rest st')
              | File c \<Rightarrow>
                  (case cb full c st of
                     Inl err \<Rightarrow> Inl err
                   | Inr st' \<Rightarrow> walk_entries cb dir rest st')
              | Other \<Rightarrow> walk_entries cb dir rest st
              | Vanished \<Rightarrow>
                  (case walk cb full (Some Vanished) st of
                     Inl err \<Rightarrow> Inl err
                   | Inr st' \<Rightarrow> walk_entries cb dir rest st'))"
  by pat_completeness auto
termination
  by (relation "measure (\<lambda>x. case x of
         Inl (cb, dir, t, st) \<Rightarrow> (case t of None \<Rightarrow> 0 | Some n \<Rightarrow> size n)
       | Inr (cb, dir, es, st) \<Rightarrow> size_list (size_prod (\<lambda>_. 0) size) es)")
    auto

subsection \<open>The callback and the report\<close>

function string_of_nat :: "nat \<Rightarrow> string" where
  "string_of_nat n =
     (if n < 10 then [char_of (48 + n)]
      else string_of_nat (n div 10) @ [char_of (48 + n mod 10)])"
  by pat_completeness auto
termination
  by (relation "measure id") auto

fun replace_crlf :: "string \<Rightarrow> string" where
  "replace_crlf (c # d # cs) =
     (if c = CHR 0x0D \<and> d = CHR 0x0A then CHR 0x0A # replace_crlf cs
      else c # replace_crlf (d # cs))"
| "replace_crlf cs = cs"

fun split_nl :: "string \<Rightarrow> string list" where
  "split_nl [] = [] # []"
| "split_nl (c # cs) =
     (if c = CHR 0x0A then [] # split_nl cs
      else (case split_nl cs of l # ls \<Rightarrow> (c # l) # ls | [] \<Rightarrow> [c] # []))"

definition starts_with :: "string \<Rightarrow> string \<Rightarrow> bool" where
  "starts_with pre s = (take (length pre) s = pre)"

definition TEXT_EXTENSIONS :: "string list" where
  "TEXT_EXTENSIONS =
     [''.ts'', ''.tsx'', ''.js'', ''.jsx'', ''.json'', ''.md'', ''.py'', ''.sh'',
      ''.env.example'']"

definition excluded_self :: "string list \<Rightarrow> bool" where
  "excluded_self file =
     starts_with ''scripts/guard-superbowl-strings''
       (map (\<lambda>c. if c = CHR 0x5C then CHR ''/'' else c) (path_relative file))"

definition isText :: "string list \<Rightarrow> bool" where
  "isText file =
     (let ext = toLowerCase (extname file) in ext \<in> set TEXT_EXTENSIONS \<or> ext = [])"

definition hit_line :: "string \<Rightarrow> nat \<Rightarrow> string \<Rightarrow> string" where
  "hit_line rel i line = rel @ '':'' @ string_of_nat (i + 1) @ '':'' @ trim line"

definition scan_lines :: "string \<Rightarrow> string list \<Rightarrow> string list \<Rightarrow> string list" where
  "scan_lines rel lines hits =
     foldl (\<lambda>h (i, line). if regex_test BAD_PATTERN line then h @ [hit_line rel i line] else h)
       hits (enumerate 0 lines)"

definition scan_file :: "string list \<Rightarrow> string option \<Rightarrow> string list \<Rightarrow> fs_error + string list" where
  "scan_file file content hits =
     (let rel = path_relative file
      in if excluded_self file then Inr hits
         else if \<not> isText file then Inr hits
         else case content of
                None \<Rightarrow> Inl (ReadFileFailed file)
              | Some raw \<Rightarrow> Inr (scan_lines rel (split_nl (replace_crlf raw)) hits))"

text \<open>
  The two banners start with a glyph above U+00FF, left out here. An exception nobody
  catches ends the process with status 1 and prints nothing of \<^verbatim>\<open>hits\<close>.
\<close>

definition fail_banner :: string where
  "fail_banner = ''Found legacy Super Bowl strings. Replace with config + formatters:''"

definition success_banner :: string where
  "success_banner = ''No legacy Super Bowl strings found.''"

datatype outcome =
    Exited (stdout: "string list") (stderr: "string list") (status: nat)
  | Uncaught fs_error

definition exit_status :: "outcome \<Rightarrow> nat" where
  "exit_status r = (case r of Exited out err st \<Rightarrow> st | Uncaught e \<Rightarrow> 1)"

definition guard :: "node option \<Rightarrow> outcome" where
  "guard root =
     (case walk scan_file [] root [] of
        Inl err \<Rightarrow> Uncaught err
      | Inr hits \<Rightarrow>
          if 0 < length hits then Exited [] (fail_banner # hits) 1
          else Exited [success_banner] [] 0)"

subsection \<open>What the walk visits\<close>

text \<open>
  \<open>visits es p n\<close>: below a directory with entries \<open>es\<close>, the relative path \<open>p\<close> leads to
  the node \<open>n\<close> through listable directories without passing a name of \<^const>\<open>IGNORE\<close>.
\<close>

inductive visits :: "(string \<times> node) list \<Rightarrow> string list \<Rightarrow> node \<Rightarrow> bool" where
  visits_here: "(e_name, e) \<in> set es \<Longrightarrow> e_name \<notin> IGNORE \<Longrightarrow> visits es [e_name] e"
| visits_below:
    "(e_name, Dir (Some sub)) \<in> set es \<Longrightarrow> e_name \<notin> IGNORE \<Longrightarrow> visits sub p e \<Longrightarrow>
     visits es (e_name # p) e"

code_pred visits .

text \<open>
  \<open>found F dir es\<close>: what is collected below a directory \<open>dir\<close> with entries \<open>es\<close> when every
  visited file at path \<open>p\<close> with content \<open>c\<close> contributes the elements of \<open>F p c\<close>.
\<close>

definition found ::
    "(string list \<Rightarrow> string option \<Rightarrow> 'a list) \<Rightarrow> string list \<Rightarrow> (string \<times> node) list \<Rightarrow> 'a set" where
  "found F dir es = {x. \<exists>p c. visits es p (File c) \<and> x \<in> set (F (dir @ p) c)}"

text \<open>
  The part of a tree the guard depends on: entries named in \<^const>\<open>IGNORE\<close> are removed at
  every depth, and the text of every file that is not \<^const>\<open>isText\<close> is made unreadable.
\<close>

function scanned_part :: "string list \<Rightarrow> node \<Rightarrow> node"
  and scanned_entries :: "string list \<Rightarrow> (string \<times> node) list \<Rightarrow> (string \<times> node) list"
where
  "scanned_part p (Dir (Some es)) = Dir (Some (scanned_entries p es))"
| "scanned_part p (Dir None) = Dir None"
| "scanned_part p (File c) = (if isText p then File c else File None)"
| "scanned_part p Other = Other"
| "scanned_part p Vanished = Vanished"
| "scanned_entries p [] = []"
| "scanned_entries p ((e_name, e) # rest) =
     (if e_name \<in> IGNORE then scanned_entries p rest
      else (e_name, scanned_part (p @ [e_name]) e) # scanned_entries p rest)"
  by pat_completeness auto
termination
  by (relation "measure (\<lambda>x. case x of
         Inl (p, n) \<Rightarrow> size n
       | Inr (p, es) \<Rightarrow> size_list (size_prod (\<lambda>_. 0) size) es)")
    auto

subsection \<open>Occurrences of a word in a line\<close>

definition occurs_at :: "string \<Rightarrow> string \<Rightarrow> nat \<Rightarrow> bool" where
  "occurs_at w s i = (i + length w \<le> length s \<and> take (length w) (drop i s) = w)"

definition contains :: "string \<Rightarrow> string \<Rightarrow> bool" where
  "contains w s = list_ex (occurs_at w s) [0 ..< Suc (length s)]"

text \<open>An occurrence is standalone when no word character touches it on either side.\<close>

definition standalone_at :: "string \<Rightarrow> string \<Rightarrow> nat \<Rightarrow> bool" where
  "standalone_at w s i =
     (occurs_at w s i \<and> \<not> (0 < i \<and> word_at s (i - 1)) \<and> \<not> word_at s (i + length w))"

definition standalone :: "string \<Rightarrow> string \<Rightarrow> bool" where
  "standalone w s = list_ex (standalone_at w s) [0 ..< Suc (length s)]"

section \<open>scripts/guard-superbowl-strings.sh\<close>

text \<open>
  The shell version of the guard, which the header of the JavaScript guard names. The
  script captures what \<^verbatim>\<open>rg -n PATTERN . || true\<close> prints, and reports on standard output.
  The search tool is a parameter of the script's model.

  \<open>rg_n\<close> models the tool itself, from its documentation and for a tree without ignore
  files and without binary files, searched from \<^verbatim>\<open>ROOT\<close>: it descends into every directory
  and searches every regular file whose name does not start with a dot, whatever the
  extension, and prints \<^verbatim>\<open>./path:line:text\<close> with the text of the line as it is. The order
  in which it prints files is not fixed; the model prints them in directory order. The
  test of a line is a parameter: the tool's engine reads \<^verbatim>\<open>\b\<close> with Unicode word
  characters and agrees with \<^const>\<open>regex_test\<close> on lines of ASCII characters.
\<close>

definition rg_file :: "(string \<Rightarrow> bool) \<Rightarrow> string list \<Rightarrow> string \<Rightarrow> string list" where
  "rg_file t file raw =
     map (\<lambda>(i, line). ''./'' @ path_relative file @ '':'' @ string_of_nat (i + 1) @ '':'' @ line)
       (filter (\<lambda>(i, line). t line) (enumerate 0 (split_nl raw)))"

function rg_entries :: "(string \<Rightarrow> bool) \<Rightarrow> string list \<Rightarrow> (string \<times> node) list \<Rightarrow> string list" where
  "rg_entries t dir [] = []"
| "rg_entries t dir ((e_name, e) # rest) =
     (if starts_with ''.'' e_name then []
      else case e of
             Dir (Some es) \<Rightarrow> rg_entries t (dir @ [e_name]) es
           | File (Some raw) \<Rightarrow> rg_file t (dir @ [e_name]) raw
           | _ \<Rightarrow> [])
     @ rg_entries t dir rest"
  by pat_completeness auto
termination
  by (relation "measure (\<lambda>(t, dir, es). size_list (size_prod (\<lambda>_. 0) size) es)") auto

definition rg_n :: "(string \<Rightarrow> bool) \<Rightarrow> node option \<Rightarrow> string list" where
  "rg_n t root = (case root of Some (Dir (Some es)) \<Rightarrow> rg_entries t [] es | _ \<Rightarrow> [])"

definition guard_sh :: "(node option \<Rightarrow> string list) \<Rightarrow> node option \<Rightarrow> outcome" where
  "guard_sh rg root =
     (let bad = rg root
      in if bad \<noteq> [] then Exited (fail_banner # bad) [] 1
         else Exited [success_banner] [] 0)"

text \<open>
  The first four lines of the script itself, as the file
  \<^verbatim>\<open>scripts/guard-superbowl-strings.sh\<close> holds them.
\<close>

definition guard_sh_text :: string where
  \<open>guard_sh_text =
     ''#!/usr/bin/env bash\<newline>set -euo pipefail\<newline>\<newline>BAD=$(rg -n "Kansas City Chiefs|San Francisco 49ers|'' @
     [CHR 0x5C] @ ''bChiefs'' @ [CHR 0x5C] @ ''b|'' @ [CHR 0x5C] @ ''b49ers'' @ [CHR 0x5C] @
     ''b|superbowlTeams" . || true)\<newline>''\<close>

section \<open>Normalisation of team names\<close>

declare ws_words.simps [simp del]
declare collapse_ws.simps(2) [simp del]

lemma collapse_ws_space: "is_space c \<Longrightarrow> collapse_ws (c # cs) = CHR '' '' # collapse_ws (dropWhile is_space cs)"
  by (simp add: collapse_ws.simps)

lemma collapse_ws_nonspace: "\<not> is_space c \<Longrightarrow> collapse_ws (c # cs) = c # collapse_ws cs"
  by (simp add: collapse_ws.simps)

lemma ws_words_Nil: "ws_words [] = []"
  by (simp add: ws_words.simps)

lemma ws_words_space: "is_space c \<Longrightarrow> ws_words (c # cs) = ws_words cs"
  by (subst ws_words.simps, subst (2) ws_words.simps) simp

lemma ws_words_dropWhile: "ws_words (dropWhile is_space s) = ws_words s"
  by (induction s) (simp_all add: ws_words_space)

lemma ws_words_nonspace:
  "\<not> is_space c \<Longrightarrow>
   ws_words (c # cs) =
     (c # takeWhile (\<lambda>c. \<not> is_space c) cs) # ws_words (dropWhile (\<lambda>c. \<not> is_space c) cs)"
  by (subst ws_words.simps) simp

lemma ws_words_word:
  "w \<noteq> [] \<Longrightarrow> \<forall>c \<in> set w. \<not> is_space c \<Longrightarrow> r = [] \<or> is_space (hd r) \<Longrightarrow>
   ws_words (w @ r) = w # ws_words r"
proof (induction w)
  case Nil
  then show ?case by simp
next
  case (Cons c w)
  show ?case
  proof (cases "w = []")
    case True
    with Cons.prems show ?thesis
      by (cases r) (auto simp: ws_words_nonspace ws_words_Nil)
  next
    case False
    with Cons have "ws_words (w @ r) = w # ws_words r" by simp
    moreover obtain d w' where w: "w = d # w'" using False by (cases w) auto
    ultimately show ?thesis using Cons.prems
      by (simp add: ws_words_nonspace)
  qed
qed

lemma ws_words_ok:
  "w \<in> set (ws_words s) \<Longrightarrow> w \<noteq> [] \<and> (\<forall>c \<in> set w. \<not> is_space c)"
proof (induction s arbitrary: w rule: ws_words.induct)
  case (1 s)
  define r where "r = dropWhile is_space s"
  show ?case
  proof (cases "r = []")
    case True
    with 1(2) show ?thesis by (simp add: ws_words.simps[of s] r_def)
  next
    case False
    then have hd: "\<not> is_space (hd r)" unfolding r_def by (rule hd_dropWhile)
    have "ws_words s = takeWhile (\<lambda>c. \<not> is_space c) r # ws_words (dropWhile (\<lambda>c. \<not> is_space c) r)"
      using False unfolding r_def by (subst ws_words.simps) (simp add: Let_def)
    with 1(2) have "w = takeWhile (\<lambda>c. \<not> is_space c) r \<or>
        w \<in> set (ws_words (dropWhile (\<lambda>c. \<not> is_space c) r))"
      by simp
    then show ?thesis
    proof
      assume w: "w = takeWhile (\<lambda>c. \<not> is_space c) r"
      obtain a l where r: "r = a # l" using False by (cases r) auto
      with hd have "w = a # takeWhile (\<lambda>c. \<not> is_space c) l" unfolding w by simp
      then have "w \<noteq> []" by simp
      moreover have "\<forall>c \<in> set w. \<not> is_space c"
        unfolding w using set_takeWhileD[of _ "\<lambda>c. \<not> is_space c" r] by blast
      ultimately show ?thesis by blast
    next
      assume "w \<in> set (ws_words (dropWhile (\<lambda>c. \<not> is_space c) r))"
      with 1(1)[OF r_def False] show ?thesis by blast
    qed
  qed
qed

lemma unwords_Nil_iff: "\<forall>w \<in> set ws. w \<noteq> [] \<Longrightarrow> unwords ws = [] \<longleftrightarrow> ws = []"
  by (induction ws rule: unwords.induct) auto

lemma unwords_Cons: "unwords (w # ws) = (if ws = [] then w else w @ CHR '' '' # unwords ws)"
  by (cases ws) auto

lemma trimEnd_Nil: "trimEnd [] = []"
  by (simp add: trimEnd_def)

lemma trimEnd_Cons:
  "trimEnd (x # t) = (if trimEnd t = [] \<and> is_space x then [] else x # trimEnd t)"
  by (auto simp: trimEnd_def dropWhile_append dropWhile_eq_Nil_conv)

lemma is_space_space: "is_space (CHR '' '')"
  by (simp add: is_space_def)

lemma rtrim_collapse:
  "trimEnd (collapse_ws s) =
     (if s \<noteq> [] \<and> is_space (hd s) \<and> ws_words s \<noteq> [] then CHR '' '' # unwords (ws_words s)
      else unwords (ws_words s))"
proof (induction s rule: collapse_ws.induct)
  case 1
  show ?case by (simp add: ws_words_Nil trimEnd_Nil)
next
  case (2 c cs)
  let ?r = "dropWhile is_space cs"
  show ?case
  proof (cases "is_space c")
    case True
    have hd: "?r = [] \<or> \<not> is_space (hd ?r)"
      using hd_dropWhile[of is_space cs] by blast
    have w: "ws_words (c # cs) = ws_words ?r"
      using True by (simp add: ws_words_space ws_words_dropWhile)
    have ih: "trimEnd (collapse_ws ?r) = unwords (ws_words ?r)"
      using 2(1)[OF True] hd by (auto simp: ws_words_Nil)
    have nil: "unwords (ws_words ?r) = [] \<longleftrightarrow> ws_words ?r = []"
      by (rule unwords_Nil_iff) (auto dest: ws_words_ok)
    have "trimEnd (collapse_ws (c # cs)) =
        (if unwords (ws_words ?r) = [] then [] else CHR '' '' # unwords (ws_words ?r))"
      using True by (simp add: collapse_ws_space trimEnd_Cons ih is_space_space)
    then show ?thesis
      using True by (simp add: w nil)
  next
    case False
    have step: "trimEnd (collapse_ws (c # cs)) = c # trimEnd (collapse_ws cs)"
      using False by (simp add: trimEnd_Cons collapse_ws_nonspace)
    note ih = 2(2)[OF False]
    show ?thesis
    proof (cases cs)
      case Nil
      have "ws_words [c] = [c] # []"
        using False by (simp add: ws_words_nonspace ws_words_Nil)
      with Nil step False show ?thesis
        by (simp add: trimEnd_Nil)
    next
      case (Cons d ds)
      show ?thesis
      proof (cases "is_space d")
        case True
        have "ws_words (c # cs) = [c] # ws_words cs"
          using False True Cons by (simp add: ws_words_nonspace)
        moreover have "trimEnd (collapse_ws cs) =
            (if ws_words cs \<noteq> [] then CHR '' '' # unwords (ws_words cs) else unwords (ws_words cs))"
          using ih True Cons by simp
        ultimately show ?thesis
          using step False by (simp add: unwords_Cons collapse_ws_nonspace)
      next
        case nd: False
        have "ws_words cs = takeWhile (\<lambda>c. \<not> is_space c) cs # ws_words (dropWhile (\<lambda>c. \<not> is_space c) cs)"
          using nd Cons by (simp add: ws_words_nonspace)
        moreover have "ws_words (c # cs) = (c # takeWhile (\<lambda>c. \<not> is_space c) cs) # ws_words (dropWhile (\<lambda>c. \<not> is_space c) cs)"
          using False by (simp add: ws_words_nonspace)
        moreover have "trimEnd (collapse_ws cs) = unwords (ws_words cs)"
          using ih nd Cons by simp
        ultimately show ?thesis
          using step False by (simp add: unwords_Cons collapse_ws_nonspace)
      qed
    qed
  qed
qed

lemma unwords_hd:
  "\<forall>w \<in> set ws. w \<noteq> [] \<and> (\<forall>c \<in> set w. \<not> is_space c) \<Longrightarrow> ws \<noteq> [] \<Longrightarrow>
   \<not> is_space (hd (unwords ws))"
  by (cases ws) (auto simp: unwords_Cons)

lemma dropWhile_unwords:
  assumes "\<forall>w \<in> set ws. w \<noteq> [] \<and> (\<forall>c \<in> set w. \<not> is_space c)"
  shows "dropWhile is_space (unwords ws) = unwords ws"
proof (cases "ws = []")
  case True
  then show ?thesis by simp
next
  case False
  with assms have "\<not> is_space (hd (unwords ws))" by (rule unwords_hd)
  moreover from assms False have "unwords ws \<noteq> []" by (simp add: unwords_Nil_iff)
  ultimately show ?thesis by (cases "unwords ws") auto
qed

lemma normalizeTeamName_words: "normalizeTeamName s = unwords (ws_words s)"
proof -
  have ok: "\<forall>w \<in> set (ws_words s). w \<noteq> [] \<and> (\<forall>c \<in> set w. \<not> is_space c)"
    by (auto dest: ws_words_ok)
  show ?thesis
    unfolding normalizeTeamName_def trim_def rtrim_collapse trimStart_def
    by (simp add: dropWhile_unwords[OF ok] is_space_space)
qed

lemma ws_words_unwords:
  "\<forall>w \<in> set ws. w \<noteq> [] \<and> (\<forall>c \<in> set w. \<not> is_space c) \<Longrightarrow> ws_words (unwords ws) = ws"
proof (induction ws rule: unwords.induct)
  case 1
  show ?case by (simp add: ws_words_Nil)
next
  case (2 w)
  then show ?case using ws_words_word[of w "[]"] by (simp add: ws_words_Nil)
next
  case (3 w v vs)
  then have "ws_words (unwords (v # vs)) = v # vs" by simp
  moreover have "ws_words (w @ CHR '' '' # unwords (v # vs)) = w # ws_words (CHR '' '' # unwords (v # vs))"
    using 3(2) by (intro ws_words_word) (auto simp: is_space_space)
  ultimately show ?case
    by (simp add: ws_words_space is_space_space)
qed

text \<open>
  C9. \<^verbatim>\<open>normalizeTeamName\<close> is idempotent; its result is the words of the argument (the
  maximal runs of non-whitespace) joined by single spaces, so every run of whitespace
  between words has become one space and the whitespace at both ends is gone; and
  \<^verbatim>\<open>normalizeTeamName("  A   B  ")\<close> is \<^verbatim>\<open>"A B"\<close>.
\<close>

theorem normalizeTeamName_idempotent:
  "normalizeTeamName (normalizeTeamName x) = normalizeTeamName x \<and>
   normalizeTeamName x = unwords (ws_words x) \<and>
   normalizeTeamName ''  A   B  '' = ''A B''"
proof -
  have ok: "\<forall>w \<in> set (ws_words x). w \<noteq> [] \<and> (\<forall>c \<in> set w. \<not> is_space c)"
    by (auto dest: ws_words_ok)
  have "normalizeTeamName ''  A   B  '' = ''A B''"
    by (simp add: normalizeTeamName_def trim_def trimStart_def trimEnd_def is_space_def
        collapse_ws.simps)
  then show ?thesis
    by (simp add: normalizeTeamName_words ws_words_unwords[OF ok])
qed

text \<open>
  C10. \<^verbatim>\<open>sameTeamName\<close> is an equivalence relation on strings: reflexive, symmetric and
  transitive.
\<close>

theorem sameTeamName_equivalence:
  "sameTeamName a a \<and>
   sameTeamName a b = sameTeamName b a \<and>
   (sameTeamName a b \<longrightarrow> sameTeamName b c \<longrightarrow> sameTeamName a c)"
  by (auto simp: sameTeamName_def)

theorem sameTeamName_equivalence_witness:
  "sameTeamName ''Team X'' ''  team   x '' \<and>
   sameTeamName ''  team   x '' ''TEAM X'' \<and>
   sameTeamName ''Team X'' ''TEAM X'' \<and>
   \<not> sameTeamName ''Team X'' ''Team Y''"
proof -
  have ab: "sameTeamName ''Team X'' ''  team   x ''"
    by code_simp
  have bc: "sameTeamName ''  team   x '' ''TEAM X''"
    by code_simp
  have n: "\<not> sameTeamName ''Team X'' ''Team Y''"
    by code_simp
  from sameTeamName_equivalence[of "''Team X''" "''  team   x ''" "''TEAM X''"] ab bc n
  show ?thesis by blast
qed

section \<open>The configuration and the formatters\<close>

lemma toLowerCase_names:
  "toLowerCase ''New England Patriots'' = ''new england patriots''"
  "toLowerCase ''Seattle Seahawks'' = ''seattle seahawks''"
  by code_simp+

text \<open>
  C2, as the specification states it, fails: \<^verbatim>\<open>isSuperbowlTeamName\<close> trims and lower-cases
  the candidate but does not collapse whitespace inside it, so a team name written with
  two spaces between its words is not recognised, while the specification's predicate
  accepts it.
\<close>

theorem isSuperbowlTeamName_inner_whitespace:
  "\<not> isSuperbowlTeamName ''New  England Patriots'' \<and>
   isKnownParticipant_spec ''New  England Patriots''"
  by code_simp

text \<open>
  C2, amended. \<^verbatim>\<open>isSuperbowlTeamName\<close> trims the candidate and folds its case, and is true
  exactly when the result is the case-folded full name of one of the two teams; it
  returns a boolean for every string. A name padded with whitespace at the ends and
  written in another case is recognised.
\<close>

theorem isSuperbowlTeamName_trim_lower:
  "isSuperbowlTeamName c =
     (toLowerCase (trim c) = toLowerCase (name (home (teams SUPERBOWL))) \<or>
      toLowerCase (trim c) = toLowerCase (name (away (teams SUPERBOWL)))) \<and>
   isSuperbowlTeamName c =
     (toLowerCase (trim c) = ''new england patriots'' \<or>
      toLowerCase (trim c) = ''seattle seahawks'') \<and>
   isSuperbowlTeamName ''  seattle SEAHAWKS ''"
proof -
  have names: "SUPERBOWL_TEAM_NAMES = [''New England Patriots'', ''Seattle Seahawks'']"
    by (simp add: SUPERBOWL_TEAM_NAMES_def SUPERBOWL_def)
  have sel: "name (home (teams SUPERBOWL)) = ''New England Patriots''"
    "name (away (teams SUPERBOWL)) = ''Seattle Seahawks''"
    by (simp_all add: SUPERBOWL_def)
  have iff: "isSuperbowlTeamName c =
     (toLowerCase (trim c) = ''new england patriots'' \<or>
      toLowerCase (trim c) = ''seattle seahawks'')"
    unfolding isSuperbowlTeamName_def names Let_def
    by (auto simp add: toLowerCase_names)
  have ex: "isSuperbowlTeamName ''  seattle SEAHAWKS ''"
    by code_simp
  from iff ex show ?thesis
    by (simp add: sel toLowerCase_names)
qed

text \<open>
  C7. \<^verbatim>\<open>formatSuperbowlMatchup\<close> returns left, separator and right concatenated: left and
  right are the full names of the home and the away team, or their abbreviations when
  \<^verbatim>\<open>useAbbreviations\<close> is true; the separator is \<^verbatim>\<open>" vs "\<close> unless \<^verbatim>\<open>separator\<close> is given. Home
  always comes first. Without an argument the options are empty, and the result is
  \<^verbatim>\<open>"New England Patriots vs Seattle Seahawks"\<close>.
\<close>

theorem formatSuperbowlMatchup_home_then_away:
  "formatSuperbowlMatchup (Some \<lparr>useAbbreviations = u, separator = sp\<rparr>) =
     (if u = Some True then team_abbreviation (home (teams SUPERBOWL))
      else name (home (teams SUPERBOWL))) @
     (case sp of None \<Rightarrow> '' vs '' | Some s \<Rightarrow> s) @
     (if u = Some True then team_abbreviation (away (teams SUPERBOWL))
      else name (away (teams SUPERBOWL))) \<and>
   formatSuperbowlMatchup None =
     formatSuperbowlMatchup (Some \<lparr>useAbbreviations = None, separator = None\<rparr>) \<and>
   formatSuperbowlMatchup None = ''New England Patriots vs Seattle Seahawks'' \<and>
   formatSuperbowlMatchup (Some \<lparr>useAbbreviations = Some True, separator = None\<rparr>) =
     ''NE vs SEA'' \<and>
   formatSuperbowlMatchup (Some \<lparr>useAbbreviations = None, separator = Some '' @ ''\<rparr>) =
     ''New England Patriots @ Seattle Seahawks''"
  by (auto simp: formatSuperbowlMatchup_def SUPERBOWL_def Let_def split: option.splits)

text \<open>
  C8. \<^verbatim>\<open>formatSuperbowlTeamsLine\<close> is the away team's full name, \<^verbatim>\<open>" vs "\<close>, then the home
  team's full name: the reverse order of \<^verbatim>\<open>formatSuperbowlMatchup\<close> with default options,
  and for the active configuration the two strings differ.
\<close>

theorem formatSuperbowlTeamsLine_away_then_home:
  "formatSuperbowlTeamsLine =
     name (away (teams SUPERBOWL)) @ '' vs '' @ name (home (teams SUPERBOWL)) \<and>
   formatSuperbowlMatchup None =
     name (home (teams SUPERBOWL)) @ '' vs '' @ name (away (teams SUPERBOWL)) \<and>
   formatSuperbowlTeamsLine = ''Seattle Seahawks vs New England Patriots'' \<and>
   formatSuperbowlTeamsLine \<noteq> formatSuperbowlMatchup None"
  by (simp add: formatSuperbowlTeamsLine_def formatSuperbowlMatchup_def SUPERBOWL_def)

section \<open>The pattern, read as occurrences\<close>

lemma occurs_at_Nil: "occurs_at [] s i = (i \<le> length s)"
  by (simp add: occurs_at_def)

lemma occurs_at_Cons:
  "occurs_at (c # w) s i = (i < length s \<and> s ! i = c \<and> occurs_at w s (Suc i))"
proof (cases "i < length s")
  case True
  then have "drop i s = s ! i # drop (Suc i) s"
    by (simp add: Cons_nth_drop_Suc)
  with True show ?thesis
    by (auto simp: occurs_at_def)
next
  case False
  then show ?thesis by (simp add: occurs_at_def)
qed

lemma match_here_lits:
  "i \<le> length s \<Longrightarrow>
   match_here (map Lit w @ rest) s i = (occurs_at w s i \<and> match_here rest s (i + length w))"
  by (induction w arbitrary: i) (auto simp: occurs_at_Nil occurs_at_Cons)

lemma occurs_at_ends:
  assumes "occurs_at w s i" "w \<noteq> []"
  shows "i < length s" "s ! i = hd w" "s ! (i + length w - 1) = last w"
proof -
  from assms obtain c v where w: "w = c # v" by (cases w) auto
  with assms show "i < length s" "s ! i = hd w" by (simp_all add: occurs_at_Cons)
  from assms have le: "i + length w \<le> length s" and tk: "take (length w) (drop i s) = w"
    by (simp_all add: occurs_at_def)
  have "last w = w ! (length w - 1)" using assms(2) by (simp add: last_conv_nth)
  also have "\<dots> = take (length w) (drop i s) ! (length w - 1)" by (simp add: tk)
  also have "\<dots> = s ! (i + length w - 1)"
    using le assms(2) by (simp add: w)
  finally show "s ! (i + length w - 1) = last w" by simp
qed

lemma match_here_bounded:
  assumes "w \<noteq> []" "is_word_char (hd w)" "is_word_char (last w)" "i \<le> length s"
  shows "match_here (WordB # map Lit w @ [WordB]) s i = standalone_at w s i"
proof (cases "occurs_at w s i")
  case False
  with assms(4) show ?thesis
    by (simp add: match_here_lits standalone_at_def)
next
  case True
  note e = occurs_at_ends[OF True assms(1)]
  from True have le: "i + length w \<le> length s" by (simp add: occurs_at_def)
  have here: "word_at s i"
    using e assms by (simp add: word_at_def)
  have before: "word_at s (i + length w - 1)"
    using e assms le by (simp add: word_at_def less_eq_Suc_le)
  have "word_boundary s i = (\<not> (0 < i \<and> word_at s (i - 1)))"
    using here by (auto simp: word_boundary_def)
  moreover have "word_boundary s (i + length w) = (\<not> word_at s (i + length w))"
    using before assms(1) by (auto simp: word_boundary_def)
  ultimately show ?thesis
    using True assms(4) by (simp add: match_here_lits standalone_at_def)
qed

lemma word_chars: "is_word_char CHR ''C''" "is_word_char CHR ''s''" "is_word_char CHR ''4''"
  by (simp_all add: is_word_char_def)

lemma list_ex_upt_Suc: "list_ex P [0 ..< Suc n] = (\<exists>i \<le> n. P i)"
proof -
  have "set [0 ..< Suc n] = {i. i \<le> n}"
    unfolding set_upt by auto
  then show ?thesis
    unfolding list_ex_iff by blast
qed

lemma regex_test_five:
  "regex_test [a1, a2, a3, a4, a5] s =
     (\<exists>i \<le> length s. match_here a1 s i \<or> match_here a2 s i \<or> match_here a3 s i \<or>
        match_here a4 s i \<or> match_here a5 s i)"
  unfolding regex_test_def list_ex_upt_Suc
  by (simp add: list_ex_iff)

lemma regex_test_BAD_PATTERN:
  "regex_test BAD_PATTERN s =
     (contains ''Kansas City Chiefs'' s \<or> contains ''San Francisco 49ers'' s \<or>
      standalone ''Chiefs'' s \<or> standalone ''49ers'' s \<or> contains ''superbowlTeams'' s)"
proof -
  have lit: "match_here (map Lit w) s i = occurs_at w s i" if "i \<le> length s" for w i
    using match_here_lits[OF that, of w "[]"] by simp
  have b1: "match_here (WordB # map Lit ''Chiefs'' @ [WordB]) s i = standalone_at ''Chiefs'' s i"
    if "i \<le> length s" for i
    by (rule match_here_bounded) (simp_all add: word_chars that)
  have b2: "match_here (WordB # map Lit ''49ers'' @ [WordB]) s i = standalone_at ''49ers'' s i"
    if "i \<le> length s" for i
    by (rule match_here_bounded) (simp_all add: word_chars that)
  have "regex_test BAD_PATTERN s =
      (\<exists>i \<le> length s. occurs_at ''Kansas City Chiefs'' s i \<or> occurs_at ''San Francisco 49ers'' s i \<or>
         standalone_at ''Chiefs'' s i \<or> standalone_at ''49ers'' s i \<or> occurs_at ''superbowlTeams'' s i)"
    unfolding BAD_PATTERN_def regex_test_five
    using lit b1 b2 by blast
  then show ?thesis
    unfolding contains_def standalone_def list_ex_upt_Suc
    by blast
qed

section \<open>Lines, hits and visited nodes\<close>

lemma foldl_push:
  "foldl (\<lambda>h (i, line). if P line then h @ [g i line] else h) h xs =
     h @ map (\<lambda>(i, line). g i line) (filter (\<lambda>(i, line). P line) xs)"
  by (induction xs arbitrary: h) (auto split: prod.splits)

lemma scan_lines_eq:
  "scan_lines rel ls hits =
     hits @ map (\<lambda>(i, line). hit_line rel i line)
              (filter (\<lambda>(i, line). regex_test BAD_PATTERN line) (enumerate 0 ls))"
  unfolding scan_lines_def by (rule foldl_push)

lemma set_scan_hits:
  "set (map (\<lambda>(i, line). hit_line rel i line)
         (filter (\<lambda>(i, line). regex_test BAD_PATTERN line) (enumerate 0 ls))) =
     {hit_line rel i (ls ! i) | i. i < length ls \<and> regex_test BAD_PATTERN (ls ! i)}"
  by (auto simp: in_set_enumerate_eq image_iff)

lemma replace_crlf_no_nl: "CHR 0x0A \<notin> set s \<Longrightarrow> replace_crlf s = s"
  by (induction s rule: replace_crlf.induct) auto

lemma split_nl_no_nl: "CHR 0x0A \<notin> set s \<Longrightarrow> split_nl s = [s]"
  by (induction s) auto

declare string_of_nat.simps [simp del]

lemma string_of_nat_1: "string_of_nat (Suc 0) = ''1''" "string_of_nat 1 = ''1''"
  by code_simp+

lemma visits_Nil: "\<not> visits [] p e"
  by (auto elim: visits.cases)

lemma visits_mono: "visits es p e \<Longrightarrow> set es \<subseteq> set es' \<Longrightarrow> visits es' p e"
proof (induction arbitrary: es' rule: visits.induct)
  case (visits_here e_name e es)
  then show ?case by (blast intro: visits.visits_here)
next
  case (visits_below e_name sub es p e)
  from visits_below.hyps(1,2) visits_below.prems visits_below.hyps(3)
  show ?case by (blast intro: visits.visits_below)
qed

lemma visits_Cons:
  "visits ((nm, n) # rest) p e \<longleftrightarrow>
     (nm \<notin> IGNORE \<and> (p = [nm] \<and> e = n \<or>
        (\<exists>sub q. n = Dir (Some sub) \<and> p = nm # q \<and> visits sub q e))) \<or>
     visits rest p e"
  (is "?L \<longleftrightarrow> ?R")
proof
  assume ?L
  then show ?R
  proof (cases rule: visits.cases)
    case (visits_here e_name)
    then show ?thesis by (auto intro: visits.visits_here)
  next
    case (visits_below e_name sub q)
    then show ?thesis by (auto intro: visits.visits_below)
  qed
next
  assume r: ?R
  have sub: "set rest \<subseteq> set ((nm, n) # rest)" by auto
  from r consider "nm \<notin> IGNORE" "p = [nm]" "e = n"
    | sub q where "nm \<notin> IGNORE" "n = Dir (Some sub)" "p = nm # q" "visits sub q e"
    | "visits rest p e" by blast
  then show ?L
  proof cases
    case 1
    then show ?thesis by (simp add: visits.visits_here)
  next
    case 2
    have "(nm, Dir (Some sub)) \<in> set ((nm, Dir (Some sub)) # rest)" by simp
    from visits.visits_below[OF this 2(1) 2(4)] 2(2,3) show ?thesis by simp
  next
    case 3
    then show ?thesis using sub by (rule visits_mono)
  qed
qed

section \<open>What a walk collects\<close>

lemma found_Nil: "found F dir [] = {}"
  by (simp add: found_def visits_Nil)

lemma found_ignored: "nm \<in> IGNORE \<Longrightarrow> found F dir ((nm, n) # rest) = found F dir rest"
  by (simp add: found_def visits_Cons)

lemma found_Other: "found F dir ((nm, Other) # rest) = found F dir rest"
  by (auto simp: found_def visits_Cons)

lemma found_Vanished: "found F dir ((nm, Vanished) # rest) = found F dir rest"
  by (auto simp: found_def visits_Cons)

lemma found_File:
  "nm \<notin> IGNORE \<Longrightarrow> found F dir ((nm, File c) # rest) = set (F (dir @ [nm]) c) \<union> found F dir rest"
  by (auto simp: found_def visits_Cons)

lemma found_Dir:
  "nm \<notin> IGNORE \<Longrightarrow>
   found F dir ((nm, Dir (Some sub)) # rest) = found F (dir @ [nm]) sub \<union> found F dir rest"
  by (auto simp: found_def visits_Cons)

lemma walk_collects:
  "\<forall>p c h h'. cb p c h = Inr h' \<longrightarrow> h' = h @ F p c \<Longrightarrow>
   walk cb dir t h = Inr h' \<Longrightarrow>
   (case t of Some (Dir (Some es)) \<Rightarrow> \<exists>new. h' = h @ new \<and> set new = found F dir es
            | _ \<Rightarrow> h' = h)"
  "\<forall>p c h h'. cb p c h = Inr h' \<longrightarrow> h' = h @ F p c \<Longrightarrow>
   walk_entries cb dir es h = Inr h' \<Longrightarrow>
   \<exists>new. h' = h @ new \<and> set new = found F dir es"
proof (induction cb dir t h and cb dir es h arbitrary: h' and h' rule: walk_walk_entries.induct)
  case (8 cb dir e_name e rest st)
  note IH = "8.IH" and prems = "8.prems"
  show ?case
  proof (cases "e_name \<in> IGNORE")
    case True
    with IH(1)[OF refl True prems(1)] prems(2) show ?thesis
      by (simp add: found_ignored)
  next
    case False
    show ?thesis
    proof (cases e)
      case Other
      with IH(5)[OF refl False Other prems(1)] prems(2) False show ?thesis
        by (simp add: found_Other)
    next
      case Vanished
      have w: "walk cb (dir @ [e_name]) (Some Vanished) st = Inr st" by simp
      from prems(2) False Vanished have r: "walk_entries cb dir rest st = Inr h'" by simp
      from IH(7)[OF refl False Vanished w prems(1) r] Vanished show ?thesis
        by (simp add: found_Vanished)
    next
      case (File c)
      from prems(2) False File obtain h1 where c1: "cb (dir @ [e_name]) c st = Inr h1"
        and r: "walk_entries cb dir rest h1 = Inr h'"
        by (auto split: sum.splits)
      from prems(1) c1 have h1: "h1 = st @ F (dir @ [e_name]) c" by blast
      from IH(2)[OF refl False File c1 prems(1) r] obtain new where
        "h' = h1 @ new" "set new = found F dir rest" by blast
      with h1 File False show ?thesis
        by (simp add: found_File)
    next
      case (Dir l)
      from prems(2) False Dir obtain h1 where c1: "walk cb (dir @ [e_name]) (Some (Dir l)) st = Inr h1"
        and r: "walk_entries cb dir rest h1 = Inr h'"
        by (auto split: sum.splits)
      from c1 obtain sub where l: "l = Some sub" by (cases l) auto
      from IH(3)[OF refl False Dir prems(1) c1] l obtain n1 where
        n1: "h1 = st @ n1" "set n1 = found F (dir @ [e_name]) sub" by auto
      from IH(4)[OF refl False Dir c1 prems(1) r] obtain new where
        "h' = h1 @ new" "set new = found F dir rest" by blast
      with n1 Dir l False show ?thesis
        by (simp add: found_Dir)
    qed
  qed
qed (auto simp: found_Nil)

lemma walk_scanned_part:
  "\<forall>p c h. \<not> isText p \<longrightarrow> cb p None h = cb p c h \<Longrightarrow>
   walk cb dir t h = walk cb dir (map_option (scanned_part dir) t) h"
  "\<forall>p c h. \<not> isText p \<longrightarrow> cb p None h = cb p c h \<Longrightarrow>
   walk_entries cb dir es h = walk_entries cb dir (scanned_entries dir es) h"
proof (induction cb dir t h and cb dir es h rule: walk_walk_entries.induct)
  case (8 cb dir e_name e rest st)
  note IH = "8.IH" and prems = "8.prems"
  show ?case
  proof (cases "e_name \<in> IGNORE")
    case True
    with IH(1)[OF refl True prems] show ?thesis by simp
  next
    case False
    show ?thesis
    proof (cases e)
      case Other
      with IH(5)[OF refl False Other prems] False show ?thesis by simp
    next
      case Vanished
      have w: "walk cb (dir @ [e_name]) (Some Vanished) st = Inr st" by simp
      from IH(7)[OF refl False Vanished w prems] Vanished False show ?thesis by simp
    next
      case (File c)
      define c' where "c' = (if isText (dir @ [e_name]) then c else None)"
      have sp: "scanned_part (dir @ [e_name]) e = File c'"
        using File by (simp add: c'_def)
      have cbeq: "cb (dir @ [e_name]) c' st = cb (dir @ [e_name]) c st"
        unfolding c'_def using prems
        by (cases "isText (dir @ [e_name])") (simp, simp only: if_False, blast)
      have r: "walk_entries cb dir rest h1 = walk_entries cb dir (scanned_entries dir rest) h1"
        if "cb (dir @ [e_name]) c st = Inr h1" for h1
        using IH(2)[OF refl False File that prems] .
      have lhs: "walk_entries cb dir ((e_name, e) # rest) st =
          (case cb (dir @ [e_name]) c st of Inl err \<Rightarrow> Inl err
           | Inr st' \<Rightarrow> walk_entries cb dir rest st')"
        using False File by simp
      have rhs: "walk_entries cb dir (scanned_entries dir ((e_name, e) # rest)) st =
          (case cb (dir @ [e_name]) c' st of Inl err \<Rightarrow> Inl err
           | Inr st' \<Rightarrow> walk_entries cb dir (scanned_entries dir rest) st')"
        using False by (simp add: sp)
      show ?thesis
        unfolding lhs rhs cbeq using r by (simp split: sum.splits)
    next
      case (Dir l)
      obtain l' where sp: "scanned_part (dir @ [e_name]) e = Dir l'"
        using Dir by (cases l) auto
      have w: "walk cb (dir @ [e_name]) (Some (Dir l)) st =
          walk cb (dir @ [e_name]) (Some (Dir l')) st"
        using IH(3)[OF refl False Dir prems] sp Dir by simp
      have r: "walk_entries cb dir rest h1 = walk_entries cb dir (scanned_entries dir rest) h1"
        if "walk cb (dir @ [e_name]) (Some (Dir l)) st = Inr h1" for h1
        using IH(4)[OF refl False Dir that prems] .
      have lhs: "walk_entries cb dir ((e_name, e) # rest) st =
          (case walk cb (dir @ [e_name]) (Some (Dir l)) st of Inl err \<Rightarrow> Inl err
           | Inr st' \<Rightarrow> walk_entries cb dir rest st')"
        using False Dir by simp
      have rhs: "walk_entries cb dir (scanned_entries dir ((e_name, e) # rest)) st =
          (case walk cb (dir @ [e_name]) (Some (Dir l')) st of Inl err \<Rightarrow> Inl err
           | Inr st' \<Rightarrow> walk_entries cb dir (scanned_entries dir rest) st')"
        using False by (simp add: sp)
      show ?thesis
        unfolding lhs rhs w[symmetric] using r by (simp split: sum.splits)
    qed
  qed
next
  case (3 cb dir entries st)
  from "3.IH"[OF "3.prems"] show ?case by simp
qed simp_all

lemma walk_quiet:
  "(case t of None \<Rightarrow> True
    | Some (Dir (Some es)) \<Rightarrow>
        \<forall>p n. visits es p n \<longrightarrow> n \<noteq> Dir None \<and> (\<forall>c. n = File c \<longrightarrow> (\<forall>h. cb (dir @ p) c h = Inr h))
    | _ \<Rightarrow> False) \<Longrightarrow>
   walk cb dir t h = Inr h"
  "\<forall>p n. visits es p n \<longrightarrow> n \<noteq> Dir None \<and> (\<forall>c. n = File c \<longrightarrow> (\<forall>h. cb (dir @ p) c h = Inr h)) \<Longrightarrow>
   walk_entries cb dir es h = Inr h"
proof (induction cb dir t h and cb dir es h rule: walk_walk_entries.induct)
  case (8 cb dir e_name e rest st)
  note IH = "8.IH" and prems = "8.prems"
  have rest: "\<forall>p n. visits rest p n \<longrightarrow> n \<noteq> Dir None \<and>
      (\<forall>c. n = File c \<longrightarrow> (\<forall>h. cb (dir @ p) c h = Inr h))"
    using prems by (simp add: visits_Cons)
  show ?case
  proof (cases "e_name \<in> IGNORE")
    case True
    with IH(1)[OF refl True rest] show ?thesis by simp
  next
    case False
    show ?thesis
    proof (cases e)
      case Other
      with IH(5)[OF refl False Other rest] False show ?thesis by simp
    next
      case Vanished
      have w: "walk cb (dir @ [e_name]) (Some Vanished) st = Inr st" by simp
      from IH(7)[OF refl False Vanished w rest] Vanished False show ?thesis by simp
    next
      case (File c)
      have "visits ((e_name, e) # rest) [e_name] (File c)"
        using False File by (simp add: visits_Cons)
      with prems have c: "cb (dir @ [e_name]) c st = Inr st" by blast
      from IH(2)[OF refl False File c rest] c File False show ?thesis by simp
    next
      case (Dir l)
      have "visits ((e_name, e) # rest) [e_name] (Dir l)"
        using False Dir by (simp add: visits_Cons)
      with prems have "Dir l \<noteq> Dir None" by blast
      then obtain sub where l: "l = Some sub" by (cases l) auto
      have sub: "\<forall>p n. visits sub p n \<longrightarrow> n \<noteq> Dir None \<and>
          (\<forall>c. n = File c \<longrightarrow> (\<forall>h. cb ((dir @ [e_name]) @ p) c h = Inr h))"
      proof (intro allI impI)
        fix p n assume "visits sub p n"
        then have "visits ((e_name, e) # rest) (e_name # p) n"
          using False Dir l by (simp add: visits_Cons)
        with prems show "n \<noteq> Dir None \<and> (\<forall>c. n = File c \<longrightarrow> (\<forall>h. cb ((dir @ [e_name]) @ p) c h = Inr h))"
          by fastforce
      qed
      have w: "walk cb (dir @ [e_name]) (Some (Dir l)) st = Inr st"
        using IH(3)[OF refl False Dir] sub l by simp
      from IH(4)[OF refl False Dir w rest] w Dir False show ?thesis by simp
    qed
  qed
qed (auto split: option.splits node.splits)

lemma scan_file_not_text: "\<not> isText file \<Longrightarrow> scan_file file content hits = Inr hits"
  by (simp add: scan_file_def)

lemma scan_file_excluded: "excluded_self file \<Longrightarrow> scan_file file content hits = Inr hits"
  by (simp add: scan_file_def)

lemma scan_file_text:
  "\<not> excluded_self file \<Longrightarrow> isText file \<Longrightarrow>
   scan_file file (Some raw) hits =
     Inr (hits @ map (\<lambda>(i, line). hit_line (path_relative file) i line)
            (filter (\<lambda>(i, line). regex_test BAD_PATTERN line)
               (enumerate 0 (split_nl (replace_crlf raw)))))"
  by (simp add: scan_file_def scan_lines_eq)

lemma guard_None: "guard None = Exited [success_banner] [] 0"
  by (simp add: guard_def)

lemma walk_total:
  "(case t of None \<Rightarrow> True
    | Some (Dir (Some es)) \<Rightarrow>
        \<forall>p n. visits es p n \<longrightarrow> n \<noteq> Dir None \<and>
          (\<forall>c. n = File c \<longrightarrow> (\<forall>h. \<exists>h'. cb (dir @ p) c h = Inr h'))
    | Some Vanished \<Rightarrow> True
    | _ \<Rightarrow> False) \<Longrightarrow>
   \<exists>h'. walk cb dir t h = Inr h'"
  "\<forall>p n. visits es p n \<longrightarrow> n \<noteq> Dir None \<and>
     (\<forall>c. n = File c \<longrightarrow> (\<forall>h. \<exists>h'. cb (dir @ p) c h = Inr h')) \<Longrightarrow>
   \<exists>h'. walk_entries cb dir es h = Inr h'"
proof (induction cb dir t h and cb dir es h rule: walk_walk_entries.induct)
  case (8 cb dir e_name e rest st)
  note IH = "8.IH" and prems = "8.prems"
  have rest: "\<forall>p n. visits rest p n \<longrightarrow> n \<noteq> Dir None \<and>
      (\<forall>c. n = File c \<longrightarrow> (\<forall>h. \<exists>h'. cb (dir @ p) c h = Inr h'))"
    using prems by (simp add: visits_Cons)
  show ?case
  proof (cases "e_name \<in> IGNORE")
    case True
    with IH(1)[OF refl True rest] show ?thesis by simp
  next
    case False
    show ?thesis
    proof (cases e)
      case Other
      with IH(5)[OF refl False Other rest] False show ?thesis by simp
    next
      case Vanished
      have w: "walk cb (dir @ [e_name]) (Some Vanished) st = Inr st" by simp
      from IH(7)[OF refl False Vanished w rest] Vanished False show ?thesis by simp
    next
      case (File c)
      have "visits ((e_name, e) # rest) [e_name] (File c)"
        using False File by (simp add: visits_Cons)
      with prems obtain h1 where c: "cb (dir @ [e_name]) c st = Inr h1" by blast
      from IH(2)[OF refl False File c rest] c File False show ?thesis by simp
    next
      case (Dir l)
      have "visits ((e_name, e) # rest) [e_name] (Dir l)"
        using False Dir by (simp add: visits_Cons)
      with prems have "Dir l \<noteq> Dir None" by blast
      then obtain sub where l: "l = Some sub" by (cases l) auto
      have sub: "\<forall>p n. visits sub p n \<longrightarrow> n \<noteq> Dir None \<and>
          (\<forall>c. n = File c \<longrightarrow> (\<forall>h. \<exists>h'. cb ((dir @ [e_name]) @ p) c h = Inr h'))"
      proof (intro allI impI)
        fix p n assume "visits sub p n"
        then have "visits ((e_name, e) # rest) (e_name # p) n"
          using False Dir l by (simp add: visits_Cons)
        with prems show "n \<noteq> Dir None \<and>
            (\<forall>c. n = File c \<longrightarrow> (\<forall>h. \<exists>h'. cb ((dir @ [e_name]) @ p) c h = Inr h'))"
          by fastforce
      qed
      obtain h1 where w: "walk cb (dir @ [e_name]) (Some (Dir l)) st = Inr h1"
        using IH(3)[OF refl False Dir] sub l by auto
      from IH(4)[OF refl False Dir w rest] w Dir False show ?thesis by simp
    qed
  qed
qed (auto split: option.splits node.splits)

lemma scan_file_returns:
  "c = None \<longrightarrow> excluded_self p \<or> \<not> isText p \<Longrightarrow> \<exists>h'. scan_file p c h = Inr h'"
  by (cases c) (auto simp: scan_file_def Let_def)

section \<open>The guard\<close>

text \<open>
  C3, as the specification states it, fails: a line in which the nickname stands only
  inside a longer word is still a hit when another alternative of the pattern occurs in
  it. In \<^verbatim>\<open>const superbowlTeams = loadChiefsRoster();\<close> the only occurrence of \<^verbatim>\<open>Chiefs\<close> has a
  word character on both sides, and the guard reports the line.
\<close>

theorem guard_nickname_inside_word_hit:
  "contains ''Chiefs'' ''const superbowlTeams = loadChiefsRoster();'' \<and>
   \<not> standalone ''Chiefs'' ''const superbowlTeams = loadChiefsRoster();'' \<and>
   \<not> standalone ''49ers'' ''const superbowlTeams = loadChiefsRoster();'' \<and>
   guard (Some (Dir (Some [(''a.ts'', File (Some ''const superbowlTeams = loadChiefsRoster();''))]))) =
     Exited [] [fail_banner, ''a.ts:1:const superbowlTeams = loadChiefsRoster();''] 1"
  by code_simp

text \<open>
  C3, amended. A line matches the pattern exactly when it contains one of the three
  literals \<^verbatim>\<open>Kansas City Chiefs\<close>, \<^verbatim>\<open>San Francisco 49ers\<close>, \<^verbatim>\<open>superbowlTeams\<close>, or a standalone
  occurrence of \<^verbatim>\<open>Chiefs\<close> or \<^verbatim>\<open>49ers\<close> (no word character next to it on either side). For a
  tree of one file that the guard scans (name not ignored, text extension, not the
  guard's own path) holding one line: when the line contains none of the literals and
  no standalone nickname, the guard records nothing and exits with status 0; when it
  contains a standalone nickname, the guard records exactly one hit, \<^verbatim>\<open>name:1:trimmed line\<close>,
  and exits with status 1.
\<close>

theorem guard_single_line:
  assumes "nm \<notin> IGNORE" "isText [nm]" "\<not> excluded_self [nm]" "CHR 0x0A \<notin> set line"
  shows "regex_test BAD_PATTERN line =
           (contains ''Kansas City Chiefs'' line \<or> contains ''San Francisco 49ers'' line \<or>
            contains ''superbowlTeams'' line \<or>
            standalone ''Chiefs'' line \<or> standalone ''49ers'' line) \<and>
         guard (Some (Dir (Some [(nm, File (Some line))]))) =
           (if contains ''Kansas City Chiefs'' line \<or> contains ''San Francisco 49ers'' line \<or>
               contains ''superbowlTeams'' line \<or>
               standalone ''Chiefs'' line \<or> standalone ''49ers'' line
            then Exited [] [fail_banner, nm @ '':1:'' @ trim line] 1
            else Exited [success_banner] [] 0)"
proof -
  have t: "regex_test BAD_PATTERN line =
           (contains ''Kansas City Chiefs'' line \<or> contains ''San Francisco 49ers'' line \<or>
            contains ''superbowlTeams'' line \<or>
            standalone ''Chiefs'' line \<or> standalone ''49ers'' line)"
    unfolding regex_test_BAD_PATTERN by blast
  have ls: "split_nl (replace_crlf line) = [line]"
    using assms(4) by (simp add: replace_crlf_no_nl split_nl_no_nl)
  have sf: "scan_file [nm] (Some line) [] =
      Inr (if regex_test BAD_PATTERN line then [nm @ '':1:'' @ trim line] else [])"
    using assms(2,3) by (simp add: scan_file_text ls hit_line_def string_of_nat_1)
  have "guard (Some (Dir (Some [(nm, File (Some line))]))) =
      (if regex_test BAD_PATTERN line then Exited [] [fail_banner, nm @ '':1:'' @ trim line] 1
       else Exited [success_banner] [] 0)"
    using assms(1) by (simp add: guard_def sf)
  with t show ?thesis by simp
qed

theorem guard_single_line_witness:
  "guard (Some (Dir (Some [(''notes.md'', File (Some ''  Go Chiefs!''))]))) =
     Exited [] [fail_banner, ''notes.md:1:Go Chiefs!''] 1 \<and>
   guard (Some (Dir (Some [(''notes.md'', File (Some ''the 49ership and Chiefsdom''))]))) =
     Exited [success_banner] [] 0"
proof -
  have a: "''notes.md'' \<notin> IGNORE" by (simp add: IGNORE_def)
  have b: "isText [''notes.md'']" by code_simp
  have c: "\<not> excluded_self [''notes.md'']" by code_simp
  have d1: "CHR 0x0A \<notin> set ''  Go Chiefs!''" by simp
  have d2: "CHR 0x0A \<notin> set ''the 49ership and Chiefsdom''" by simp
  have e1: "standalone ''Chiefs'' ''  Go Chiefs!''" by code_simp
  have e2: "\<not> (contains ''Kansas City Chiefs'' ''the 49ership and Chiefsdom'' \<or>
      contains ''San Francisco 49ers'' ''the 49ership and Chiefsdom'' \<or>
      contains ''superbowlTeams'' ''the 49ership and Chiefsdom'' \<or>
      standalone ''Chiefs'' ''the 49ership and Chiefsdom'' \<or>
      standalone ''49ers'' ''the 49ership and Chiefsdom'')" by code_simp
  have t: "trim ''  Go Chiefs!'' = ''Go Chiefs!''" by code_simp
  from guard_single_line[OF a b c d1] e1 t
  have 1: "guard (Some (Dir (Some [(''notes.md'', File (Some ''  Go Chiefs!''))]))) =
     Exited [] [fail_banner, ''notes.md:1:Go Chiefs!''] 1" by simp
  from guard_single_line[OF a b c d2] e2
  have 2: "guard (Some (Dir (Some [(''notes.md'', File (Some ''the 49ership and Chiefsdom''))]))) =
     Exited [success_banner] [] 0" by simp
  from 1 2 show ?thesis by simp
qed

lemma walk_scan_file_result:
  assumes "walk scan_file [] root [] = Inr hits"
  shows "guard root =
           (if hits = [] then Exited [success_banner] [] 0
            else Exited [] (fail_banner # hits) 1) \<and>
         (root = None \<longrightarrow> hits = []) \<and>
         (\<forall>es. root = Some (Dir (Some es)) \<longrightarrow>
            set hits =
              {path_relative p @ '':'' @ string_of_nat (i + 1) @ '':'' @
                 trim (split_nl (replace_crlf raw) ! i) | p raw i.
               visits es p (File (Some raw)) \<and> \<not> excluded_self p \<and> isText p \<and>
               i < length (split_nl (replace_crlf raw)) \<and>
               regex_test BAD_PATTERN (split_nl (replace_crlf raw) ! i)})"
proof -
  define F where "F = (\<lambda>p c. case c of
      None \<Rightarrow> []
    | Some raw \<Rightarrow>
        if excluded_self p \<or> \<not> isText p then []
        else map (\<lambda>(i, line). hit_line (path_relative p) i line)
               (filter (\<lambda>(i, line). regex_test BAD_PATTERN line)
                  (enumerate 0 (split_nl (replace_crlf raw)))))"
  have cb: "\<forall>p c h h'. scan_file p c h = Inr h' \<longrightarrow> h' = h @ F p c"
  proof (intro allI impI)
    fix p c h h' assume a: "scan_file p c h = Inr h'"
    show "h' = h @ F p c"
    proof (cases "excluded_self p \<or> \<not> isText p")
      case True
      with a show ?thesis
        by (auto simp: F_def scan_file_excluded scan_file_not_text split: option.splits)
    next
      case False
      with a show ?thesis
        by (cases c) (auto simp: F_def scan_file_def scan_lines_eq)
    qed
  qed
  have g: "guard root =
           (if hits = [] then Exited [success_banner] [] 0
            else Exited [] (fail_banner # hits) 1)"
    using assms by (simp add: guard_def)
  have n: "root = None \<longrightarrow> hits = []"
    using assms by auto
  have s: "set hits =
              {path_relative p @ '':'' @ string_of_nat (i + 1) @ '':'' @
                 trim (split_nl (replace_crlf raw) ! i) | p raw i.
               visits es p (File (Some raw)) \<and> \<not> excluded_self p \<and> isText p \<and>
               i < length (split_nl (replace_crlf raw)) \<and>
               regex_test BAD_PATTERN (split_nl (replace_crlf raw) ! i)}"
    if r: "root = Some (Dir (Some es))" for es
  proof -
    from walk_collects(1)[OF cb assms] r have h: "set hits = found F [] es"
      by auto
    have "found F [] es = {x. \<exists>p raw. visits es p (File (Some raw)) \<and> \<not> excluded_self p \<and> isText p \<and>
        x \<in> {hit_line (path_relative p) i (split_nl (replace_crlf raw) ! i) | i.
               i < length (split_nl (replace_crlf raw)) \<and>
               regex_test BAD_PATTERN (split_nl (replace_crlf raw) ! i)}}"
      (is "_ = ?R")
    proof (rule set_eqI)
      fix x
      show "x \<in> found F [] es \<longleftrightarrow> x \<in> ?R"
      proof
        assume "x \<in> found F [] es"
        then obtain p c where v: "visits es p (File c)" and x: "x \<in> set (F p c)"
          by (auto simp: found_def)
        from x obtain raw where c: "c = Some raw" by (cases c) (auto simp: F_def)
        from x c have q: "\<not> excluded_self p" "isText p"
          by (auto simp: F_def split: if_splits)
        with x c have "x \<in> {hit_line (path_relative p) i (split_nl (replace_crlf raw) ! i) | i.
               i < length (split_nl (replace_crlf raw)) \<and>
               regex_test BAD_PATTERN (split_nl (replace_crlf raw) ! i)}"
          unfolding F_def by (simp only: option.case if_False simp_thms set_scan_hits)
        with v c q show "x \<in> ?R" by blast
      next
        assume "x \<in> ?R"
        then obtain p raw where v: "visits es p (File (Some raw))" and q: "\<not> excluded_self p" "isText p"
          and x: "x \<in> {hit_line (path_relative p) i (split_nl (replace_crlf raw) ! i) | i.
               i < length (split_nl (replace_crlf raw)) \<and>
               regex_test BAD_PATTERN (split_nl (replace_crlf raw) ! i)}"
          by blast
        from x q have "x \<in> set (F p (Some raw))"
          unfolding F_def by (simp only: option.case if_False simp_thms set_scan_hits)
        with v show "x \<in> found F [] es"
          by (auto simp: found_def)
      qed
    qed
    with h show ?thesis
      unfolding hit_line_def by blast
  qed
  from g n s show ?thesis by blast
qed

lemma walk_scan_file_hits:
  assumes "walk_entries scan_file [] es [] = Inr hits"
  shows "set hits =
             {path_relative p @ '':'' @ string_of_nat (i + 1) @ '':'' @
                trim (split_nl (replace_crlf raw) ! i) | p raw i.
              visits es p (File (Some raw)) \<and> \<not> excluded_self p \<and> isText p \<and>
              i < length (split_nl (replace_crlf raw)) \<and>
              regex_test BAD_PATTERN (split_nl (replace_crlf raw) ! i)}"
proof -
  from assms have "walk scan_file [] (Some (Dir (Some es))) [] = Inr hits" by simp
  from walk_scan_file_result[OF this] show ?thesis by simp
qed

text \<open>
  C4, as the specification states it, fails when a read throws after a hit was recorded:
  the walk of \<^verbatim>\<open>a.md\<close> alone records the hit \<^verbatim>\<open>a.md:1:Chiefs\<close>, but with an unreadable \<^verbatim>\<open>b.md\<close>
  next to it the run ends with the exception of the file read and the recorded hit is
  never emitted.
\<close>

theorem guard_hit_lost_on_read_failure:
  "walk scan_file [] (Some (Dir (Some [(''a.md'', File (Some ''Chiefs''))]))) [] =
     Inr [''a.md:1:Chiefs''] \<and>
   guard (Some (Dir (Some [(''a.md'', File (Some ''Chiefs'')), (''b.md'', File None)]))) =
     Uncaught (ReadFileFailed [''b.md''])"
  by code_simp

text \<open>
  C4, amended. On a tree in which every directory the walk visits can be listed and every
  scanned file it visits can be read, the guard reports only after the whole traversal:
  there is a list of hits, holding exactly the lines
  \<^verbatim>\<open>relativePath:lineNumber:trimmedLineText\<close>, numbered from 1, of every matching line of every
  scanned file the walk visits, such that with no hit the guard prints the success banner
  on standard output and exits with status 0, and otherwise prints the failure banner
  and every hit on standard error and exits with status 1. No hit is lost to an early
  exit.
\<close>

theorem guard_reports_every_hit:
  assumes "\<forall>p n. visits es p n \<longrightarrow>
             n \<noteq> Dir None \<and> (n = File None \<longrightarrow> excluded_self p \<or> \<not> isText p)"
  shows "\<exists>hits.
           guard (Some (Dir (Some es))) =
             (if hits = [] then Exited [success_banner] [] 0
              else Exited [] (fail_banner # hits) 1) \<and>
           set hits =
             {path_relative p @ '':'' @ string_of_nat (i + 1) @ '':'' @
                trim (split_nl (replace_crlf raw) ! i) | p raw i.
              visits es p (File (Some raw)) \<and> \<not> excluded_self p \<and> isText p \<and>
              i < length (split_nl (replace_crlf raw)) \<and>
              regex_test BAD_PATTERN (split_nl (replace_crlf raw) ! i)}"
proof -
  have "\<forall>p n. visits es p n \<longrightarrow> n \<noteq> Dir None \<and>
      (\<forall>c. n = File c \<longrightarrow> (\<forall>h. \<exists>h'. scan_file ([] @ p) c h = Inr h'))"
  proof (intro allI impI conjI)
    fix p n assume v: "visits es p n"
    with assms show "n \<noteq> Dir None" by blast
    fix c h assume n: "n = File c"
    with v assms have "c = None \<longrightarrow> excluded_self p \<or> \<not> isText p" by blast
    then show "\<exists>h'. scan_file ([] @ p) c h = Inr h'"
      using scan_file_returns[of c p h] by simp
  qed
  then have "\<exists>h'. walk_entries scan_file [] es [] = Inr h'"
    by (rule walk_total(2))
  then obtain hits where w: "walk_entries scan_file [] es [] = Inr hits"
    by blast
  have g: "guard (Some (Dir (Some es))) =
             (if hits = [] then Exited [success_banner] [] 0
              else Exited [] (fail_banner # hits) 1)"
    using w by (simp add: guard_def)
  from g walk_scan_file_hits[OF w] show ?thesis
    by (intro exI[of _ hits] conjI)
qed

theorem guard_reports_every_hit_witness:
  "guard (Some (Dir (Some
      [(''a.md'', File (Some ''hello\<newline>  the Chiefs  \<newline>x'')),
       (''node_modules'', Dir None),
       (''gone'', Vanished),
       (''src'', Dir (Some [(''b.ts'', File (Some ''49ers'')), (''c.txt'', File None)]))]))) =
     Exited [] [fail_banner, ''a.md:2:the Chiefs'', ''src/b.ts:1:49ers''] 1 \<and>
   {''a.md:2:the Chiefs'', ''src/b.ts:1:49ers''} =
     {path_relative p @ '':'' @ string_of_nat (i + 1) @ '':'' @
        trim (split_nl (replace_crlf raw) ! i) | p raw i.
      visits
        [(''a.md'', File (Some ''hello\<newline>  the Chiefs  \<newline>x'')),
         (''node_modules'', Dir None),
         (''gone'', Vanished),
         (''src'', Dir (Some [(''b.ts'', File (Some ''49ers'')), (''c.txt'', File None)]))]
        p (File (Some raw)) \<and> \<not> excluded_self p \<and> isText p \<and>
      i < length (split_nl (replace_crlf raw)) \<and>
      regex_test BAD_PATTERN (split_nl (replace_crlf raw) ! i)}"
proof -
  let ?es = "[(''a.md'', File (Some ''hello\<newline>  the Chiefs  \<newline>x'')),
       (''node_modules'', Dir None),
       (''gone'', Vanished),
       (''src'', Dir (Some [(''b.ts'', File (Some ''49ers'')), (''c.txt'', File None)]))]"
  have ntext: "\<not> isText [''src'', ''c.txt'']" by code_simp
  have ig: "''node_modules'' \<in> IGNORE" "''a.md'' \<notin> IGNORE" "''gone'' \<notin> IGNORE"
    "''src'' \<notin> IGNORE" "''b.ts'' \<notin> IGNORE" "''c.txt'' \<notin> IGNORE"
    by (simp_all add: IGNORE_def)
  have h: "\<forall>p n. visits ?es p n \<longrightarrow>
      n \<noteq> Dir None \<and> (n = File None \<longrightarrow> excluded_self p \<or> \<not> isText p)"
    using ntext ig by (auto simp: visits_Cons visits_Nil)
  have g: "guard (Some (Dir (Some ?es))) =
      Exited [] [fail_banner, ''a.md:2:the Chiefs'', ''src/b.ts:1:49ers''] 1"
    by code_simp
  from guard_reports_every_hit[OF h] obtain hits where
    1: "guard (Some (Dir (Some ?es))) =
          (if hits = [] then Exited [success_banner] [] 0
           else Exited [] (fail_banner # hits) 1)"
    and 2: "set hits =
     {path_relative p @ '':'' @ string_of_nat (i + 1) @ '':'' @
        trim (split_nl (replace_crlf raw) ! i) | p raw i.
      visits ?es p (File (Some raw)) \<and> \<not> excluded_self p \<and> isText p \<and>
      i < length (split_nl (replace_crlf raw)) \<and>
      regex_test BAD_PATTERN (split_nl (replace_crlf raw) ! i)}"
    by blast
  from 1 g have "hits = [''a.md:2:the Chiefs'', ''src/b.ts:1:49ers'']"
    by (simp split: if_splits)
  with 2 have "{''a.md:2:the Chiefs'', ''src/b.ts:1:49ers''} =
     {path_relative p @ '':'' @ string_of_nat (i + 1) @ '':'' @
        trim (split_nl (replace_crlf raw) ! i) | p raw i.
      visits ?es p (File (Some raw)) \<and> \<not> excluded_self p \<and> isText p \<and>
      i < length (split_nl (replace_crlf raw)) \<and>
      regex_test BAD_PATTERN (split_nl (replace_crlf raw) ! i)}"
    by simp
  with g show ?thesis by blast
qed

text \<open>
  C5, as the specification states it, fails for an unreadable root: \<^verbatim>\<open>existsSync\<close> is true
  for a directory that exists, \<^verbatim>\<open>readdirSync\<close> then throws, nothing catches the exception,
  and the process ends with status 1 without the success banner.
\<close>

theorem guard_unreadable_root:
  "guard (Some (Dir None)) = Uncaught (ReaddirFailed []) \<and>
   guard (Some (Dir None)) \<noteq> Exited [success_banner] [] 0 \<and>
   exit_status (guard (Some (Dir None))) = 1"
  by (simp add: guard_def exit_status_def)

text \<open>
  C5, amended. A missing root is nothing to scan: no hit, the success banner, status 0.
  So is an existing tree in which every directory the walk visits can be listed and no
  visited file qualifies for scanning. A root that exists and cannot be listed ends the
  run with the exception of the directory read.
\<close>

theorem guard_nothing_to_scan:
  "guard None = Exited [success_banner] [] 0 \<and>
   exit_status (guard None) = 0 \<and>
   guard (Some (Dir None)) = Uncaught (ReaddirFailed []) \<and>
   ((\<forall>p n. visits es p n \<longrightarrow>
        n \<noteq> Dir None \<and> (\<forall>c. n = File c \<longrightarrow> excluded_self p \<or> \<not> isText p)) \<longrightarrow>
    guard (Some (Dir (Some es))) = Exited [success_banner] [] 0)"
proof -
  have "guard (Some (Dir (Some es))) = Exited [success_banner] [] 0"
    if h: "\<forall>p n. visits es p n \<longrightarrow>
        n \<noteq> Dir None \<and> (\<forall>c. n = File c \<longrightarrow> excluded_self p \<or> \<not> isText p)"
  proof -
    have "\<forall>p n. visits es p n \<longrightarrow> n \<noteq> Dir None \<and>
        (\<forall>c. n = File c \<longrightarrow> (\<forall>h. scan_file ([] @ p) c h = Inr h))"
    proof (intro allI impI conjI)
      fix p n assume v: "visits es p n"
      with h show "n \<noteq> Dir None" by blast
      fix c k assume "n = File c"
      with v h have "excluded_self p \<or> \<not> isText p" by blast
      then show "scan_file ([] @ p) c k = Inr k"
        by (auto simp: scan_file_excluded scan_file_not_text)
    qed
    then have "walk_entries scan_file [] es [] = Inr []"
      by (rule walk_quiet(2))
    then show ?thesis by (simp add: guard_def)
  qed
  moreover have "guard (Some (Dir None)) = Uncaught (ReaddirFailed [])"
    by (simp add: guard_def)
  ultimately show ?thesis
    by (simp add: guard_None exit_status_def)
qed

theorem guard_nothing_to_scan_witness:
  "guard (Some (Dir (Some [(''.git'', Dir None), (''logo.png'', File (Some ''Chiefs'')),
                          (''docs'', Dir (Some []))]))) =
     Exited [success_banner] [] 0"
proof -
  have png: "\<not> isText [''logo.png'']" by code_simp
  have ig: "''.git'' \<in> IGNORE" "''logo.png'' \<notin> IGNORE" "''docs'' \<notin> IGNORE"
    by (simp_all add: IGNORE_def)
  have "\<forall>p n. visits [(''.git'', Dir None), (''logo.png'', File (Some ''Chiefs'')),
                       (''docs'', Dir (Some []))] p n \<longrightarrow>
        n \<noteq> Dir None \<and> (\<forall>c. n = File c \<longrightarrow> excluded_self p \<or> \<not> isText p)"
    using png ig by (auto simp: visits_Cons visits_Nil)
  with guard_nothing_to_scan[of "[(''.git'', Dir None), (''logo.png'', File (Some ''Chiefs'')),
                          (''docs'', Dir (Some []))]"]
  show ?thesis by blast
qed

text \<open>
  C6. The guard's outcome does not depend on anything below an entry named in the ignore
  set, at any depth, nor on the content of a file whose extension is neither in the text
  list nor empty: removing the former and making the latter unreadable leaves the
  outcome unchanged. An ignored entry is skipped by the walk whatever it is, and the
  callback returns the hits unchanged for a file that is not text without reading it.
\<close>

theorem guard_filter_sound:
  "guard (map_option (scanned_part []) root) = guard root \<and>
   (e_name \<in> IGNORE \<longrightarrow>
      walk_entries scan_file dir ((e_name, e) # rest) hits =
        walk_entries scan_file dir rest hits) \<and>
   (\<not> isText file \<longrightarrow> scan_file file content hits = Inr hits)"
proof -
  have "\<forall>p c h. \<not> isText p \<longrightarrow> scan_file p None h = scan_file p c h"
    by (simp add: scan_file_not_text)
  from walk_scanned_part(1)[OF this, of "[]" root "[]"]
  have "guard (map_option (scanned_part []) root) = guard root"
    by (simp add: guard_def)
  then show ?thesis
    by (simp add: scan_file_not_text)
qed

theorem guard_filter_sound_witness:
  "guard (Some (Dir (Some
      [(''node_modules'', Dir (Some [(''x.js'', File (Some ''Chiefs''))])),
       (''logo.png'', File (Some ''Chiefs''))]))) =
     Exited [success_banner] [] 0 \<and>
   walk_entries scan_file [] [(''node_modules'', Dir (Some [(''x.js'', File (Some ''Chiefs''))]))] [] =
     Inr [] \<and>
   scan_file [''logo.png''] (Some ''Chiefs'') [] = Inr []"
proof -
  have ig: "''node_modules'' \<in> IGNORE" by (simp add: IGNORE_def)
  have png: "\<not> isText [''logo.png'']" by code_simp
  have sp: "map_option (scanned_part []) (Some (Dir (Some
      [(''node_modules'', Dir (Some [(''x.js'', File (Some ''Chiefs''))])),
       (''logo.png'', File (Some ''Chiefs''))]))) =
     Some (Dir (Some [(''logo.png'', File None)]))"
    using png by (simp add: IGNORE_def)
  have g: "guard (Some (Dir (Some [(''logo.png'', File None)]))) = Exited [success_banner] [] 0"
    by code_simp
  from guard_filter_sound[of "Some (Dir (Some
      [(''node_modules'', Dir (Some [(''x.js'', File (Some ''Chiefs''))])),
       (''logo.png'', File (Some ''Chiefs''))]))" "''node_modules''" "[]"
      "Dir (Some [(''x.js'', File (Some ''Chiefs''))])" "[]" "[]" "[''logo.png'']" "Some ''Chiefs''"]
    ig png sp g
  show ?thesis by simp
qed

section \<open>The two entry points\<close>

text \<open>
  C1. The two entry points are not behaviourally identical. On a tree that holds the
  shell script itself, the JavaScript guard skips the file (the path starts with
  \<^verbatim>\<open>scripts/guard-superbowl-strings\<close>) and exits with status 0, while the shell guard finds
  the pattern in its own fourth line and exits with status 1. On a tree with a file
  \<^verbatim>\<open>notes.txt\<close> holding \<^verbatim>\<open>Chiefs\<close>, the JavaScript guard does not scan the file (extension not
  in the list) and the shell guard reports it.
\<close>

theorem guard_sh_flags_itself:
  "guard (Some (Dir (Some [(''scripts'', Dir (Some
      [(''guard-superbowl-strings.sh'', File (Some guard_sh_text))]))]))) =
     Exited [success_banner] [] 0 \<and>
   guard_sh (rg_n (regex_test BAD_PATTERN)) (Some (Dir (Some [(''scripts'', Dir (Some
      [(''guard-superbowl-strings.sh'', File (Some guard_sh_text))]))]))) =
     Exited [fail_banner,
             ''./scripts/guard-superbowl-strings.sh:4:'' @ split_nl guard_sh_text ! 3] [] 1 \<and>
   guard (Some (Dir (Some [(''notes.txt'', File (Some ''Chiefs''))]))) =
     Exited [success_banner] [] 0 \<and>
   guard_sh (rg_n (regex_test BAD_PATTERN)) (Some (Dir (Some [(''notes.txt'', File (Some ''Chiefs''))]))) =
     Exited [fail_banner, ''./notes.txt:1:Chiefs''] [] 1"
  by code_simp

end
